theory Spec2Isabelle
  imports Main "HOL-Library.Sublist"
begin

section \<open>Python values used by bot.py\<close>

text \<open>
  Strings are byte strings (Python 2 \<open>str\<close>), so \<open>len\<close> is \<open>length\<close>. An exception is a
  value of \<open>exn\<close>; the type stands for the instances of Python's \<open>Exception\<close>, which is
  what every \<open>except\<close> clause of bot.py catches. \<open>print\<close> and \<open>time.sleep\<close> are left out:
  they change neither the data nor the calls made on the collaborators.
\<close>

datatype exn = AttributeError | ValueError | Error string

definition lower_char :: "char \<Rightarrow> char" where
  "lower_char c =
     (case map_of (zip ''ABCDEFGHIJKLMNOPQRSTUVWXYZ'' ''abcdefghijklmnopqrstuvwxyz'') c of
        None \<Rightarrow> c
      | Some d \<Rightarrow> d)"

definition lower :: "string \<Rightarrow> string" where
  \<comment> \<open>\<open>s.lower()\<close>\<close>
  "lower s = map lower_char s"

definition is_space :: "char \<Rightarrow> bool" where
  "is_space c = (c \<in> set [CHR '' '', CHR 0x09, CHR 0x0A, CHR 0x0B, CHR 0x0C, CHR 0x0D])"

definition strip :: "string \<Rightarrow> string" where
  \<comment> \<open>\<open>s.strip()\<close>\<close>
  "strip s = rev (dropWhile is_space (rev (dropWhile is_space s)))"

fun py_replace :: "string \<Rightarrow> string \<Rightarrow> string \<Rightarrow> string" where
  \<comment> \<open>\<open>s.replace(old, new)\<close> for a non-empty \<open>old\<close>: every occurrence, left to right\<close>
  "py_replace old new [] = []"
| "py_replace old new (c # cs) =
     (if prefix old (c # cs) \<and> old \<noteq> []
      then new @ py_replace old new (drop (length old - 1) cs)
      else c # py_replace old new cs)"

fun split_nl :: "string \<Rightarrow> string list" where
  \<comment> \<open>\<open>s.split("\n")\<close>\<close>
  "split_nl [] = [[]]"
| "split_nl (c # cs) =
     (let rest = split_nl cs
      in if c = CHR 0x0A then [] # rest else (c # hd rest) # tl rest)"

fun findall_dot :: "nat \<Rightarrow> string \<Rightarrow> string list" where
  \<comment> \<open>\<open>re.findall('.{1,n}', s)\<close> for \<open>n > 0\<close>: the greedy, non-overlapping matches from left
      to right; \<open>.\<close> matches every character but the newline, which the scan steps over\<close>
  "findall_dot n [] = []"
| "findall_dot n (c # cs) =
     (if c = CHR 0x0A then findall_dot n cs
      else (let m = takeWhile (\<lambda>x. x \<noteq> CHR 0x0A) (take (n - 1) cs)
            in (c # m) # findall_dot n (drop (length m) cs)))"

fun str_nat :: "nat \<Rightarrow> string" where
  "str_nat n = (if n < 10 then [''0123456789'' ! n]
                else str_nat (n div 10) @ [''0123456789'' ! (n mod 10)])"

definition str_int :: "int \<Rightarrow> string" where
  \<comment> \<open>\<open>str(i)\<close> of an integer\<close>
  "str_int i = (if i < 0 then CHR ''-'' # str_nat (nat (- i)) else str_nat (nat i))"

definition is_digit :: "char \<Rightarrow> bool" where
  "is_digit c = (c \<in> set ''0123456789'')"

definition digit_val :: "char \<Rightarrow> nat" where
  "digit_val c = length (takeWhile (\<lambda>d. d \<noteq> c) ''0123456789'')"

definition py_int :: "string \<Rightarrow> exn + int" where
  \<comment> \<open>\<open>int(s)\<close> of a string: surrounding whitespace, an optional sign, decimal digits;
      anything else raises ValueError\<close>
  "py_int s =
     (let t = strip s;
          neg = (case t of [] \<Rightarrow> False | c # r \<Rightarrow> c = CHR ''-'');
          ds = (case t of [] \<Rightarrow> []
                | c # r \<Rightarrow> if c = CHR ''-'' \<or> c = CHR ''+'' then r else t);
          v = int (foldl (\<lambda>a c. 10 * a + digit_val c) 0 ds)
      in if ds \<noteq> [] \<and> list_all is_digit ds
         then Inr (if neg then - v else v)
         else Inl ValueError)"

section \<open>Data and collaborators\<close>

text \<open>
  A row of the feeds table is the tuple \<open>feed_info\<close> of the source: index 0 the id, 1 the
  name, 2 the url, 3 the poll interval in minutes. A news row is the tuple the
  \<open>!last\<close> and \<open>!lastfeed\<close> commands print: an integer and three strings. An entry is what
  feedparser delivers; reading an attribute that is absent raises AttributeError.
\<close>

datatype feed = Feed int string string int

datatype news = News int string string string

record entry =
  title :: "string option"
  link :: "string option"
  published :: "string option"
  updated :: "string option"

text \<open>
  Every call the bot makes on a collaborator (the FeedDB, tinyurl, feedparser, the irc
  connection) is recorded, in order, with its arguments.
\<close>

datatype call =
    GetFeeds
  | GetFeedsCount
  | GetNewsCount
  | GetLatestNews
  | GetNewsFromFeed int
  | InsertNews int string string string
  | CreateOne string
  | Parse string
  | Privmsg string string
  | Nick string

text \<open>
  The collaborators are not part of bot.py; they are parameters. \<open>'d\<close> is the state of the
  FeedDB, \<open>'c\<close> the state of the irc connection. A call either returns or raises.
\<close>

record ('d, 'c) env =
  CHANNEL :: string
  get_feeds :: "'d \<Rightarrow> exn + feed list"
  get_feeds_count :: "'d \<Rightarrow> exn + int"
  get_news_count :: "'d \<Rightarrow> exn + int"
  get_latest_news :: "'d \<Rightarrow> exn + news list"
  get_news_from_feed :: "'d \<Rightarrow> int \<Rightarrow> exn + news list"
  insert_news :: "'d \<Rightarrow> int \<Rightarrow> string \<Rightarrow> string \<Rightarrow> string \<Rightarrow> (exn + bool) \<times> 'd"
  create_one :: "string \<Rightarrow> exn + string"
  parse :: "string \<Rightarrow> exn + entry list"
  privmsg :: "'c \<Rightarrow> string \<Rightarrow> string \<Rightarrow> exn option \<times> 'c"
  nick :: "'c \<Rightarrow> string \<Rightarrow> exn option \<times> 'c"
  get_nickname :: "'c \<Rightarrow> string"

record ('d, 'c) world =
  db :: 'd
  conn :: 'c
  calls :: "call list"

definition record_call :: "call \<Rightarrow> ('d, 'c) world \<Rightarrow> ('d, 'c) world" where
  "record_call c w = w\<lparr>calls := calls w @ [c]\<rparr>"

section \<open>IRCBot\<close>

definition help_msg :: "('d, 'c) env \<Rightarrow> 'c \<Rightarrow> string" where
  "help_msg E c =
     ''Help:\<newline>    Send all commands as a private message to '' @ get_nickname E c @
     ''\<newline>    - !help         Prints this help\<newline>    - !list         Prints all feeds\<newline>    - !stats        Prints some statistics\<newline>    - !last         Prints the last 25 entries\<newline>    - !lastfeed <feedid> Prints the last 25 entries from a specific feed\<newline>''"

fun feed_line :: "feed \<Rightarrow> string" where
  "feed_line (Feed i name url freq) =
     ''#'' @ str_int i @ '': '' @ name @ '', '' @ url @ '', updated every '' @ str_int freq
       @ '' min'' @ ''\<newline>''"

fun news_line :: "news \<Rightarrow> string" where
  "news_line (News i a b c) =
     ''#'' @ str_int i @ '': '' @ a @ '', '' @ b @ '', '' @ c @ ''\<newline>''"

definition handle_body ::
  "('d, 'c) env \<Rightarrow> ('d, 'c) world \<Rightarrow> string \<Rightarrow> (exn + string) \<times> ('d, 'c) world" where
  \<comment> \<open>the \<open>try\<close> block of \<open>__handle_msg\<close>; \<open>Inl\<close> is an exception leaving the block\<close>
  "handle_body E w msg =
     (if msg = ''!help'' then (Inr (help_msg E (conn w)), w)
      else if msg = ''!list'' then
        (case get_feeds E (db w) of
           Inl x \<Rightarrow> (Inl x, record_call GetFeeds w)
         | Inr fs \<Rightarrow> (Inr (foldl (\<lambda>answer e. answer @ feed_line e) [] fs),
                      record_call GetFeeds w))
      else if msg = ''!stats'' then
        (case get_feeds_count E (db w) of
           Inl x \<Rightarrow> (Inl x, record_call GetFeedsCount w)
         | Inr feeds_count \<Rightarrow>
             (case get_news_count E (db w) of
                Inl x \<Rightarrow> (Inl x, record_call GetNewsCount (record_call GetFeedsCount w))
              | Inr news_count \<Rightarrow>
                  (Inr (''Feeds: '' @ str_int feeds_count @ '', News: '' @ str_int news_count),
                   record_call GetNewsCount (record_call GetFeedsCount w))))
      else if msg = ''!last'' then
        (case get_latest_news E (db w) of
           Inl x \<Rightarrow> (Inl x, record_call GetLatestNews w)
         | Inr ns \<Rightarrow> (Inr (foldl (\<lambda>answer e. answer @ news_line e) [] (rev ns)),
                      record_call GetLatestNews w))
      else if prefix ''!lastfeed'' msg then
        (case py_int (strip (py_replace ''!lastfeed'' [] msg)) of
           Inl x \<Rightarrow> (Inr (''Wrong command: '' @ msg @ '', use: !lastfeed <feedid>''), w)
         | Inr feedid \<Rightarrow>
             (case get_news_from_feed E (db w) feedid of
                Inl x \<Rightarrow> (Inl x, record_call (GetNewsFromFeed feedid) w)
              | Inr ns \<Rightarrow> (Inr (foldl (\<lambda>answer e. answer @ news_line e) [] (rev ns)),
                           record_call (GetNewsFromFeed feedid) w)))
      else (Inr (help_msg E (conn w)), w))"

definition handle_msg ::
  "('d, 'c) env \<Rightarrow> ('d, 'c) world \<Rightarrow> string \<Rightarrow> (exn + string) \<times> ('d, 'c) world" where
  \<comment> \<open>\<open>__handle_msg\<close>: the \<open>try\<close> block with its \<open>except Exception\<close> clause; \<open>Inl\<close> would be
      an exception reaching the caller\<close>
  "handle_msg E w msg =
     (case handle_body E w msg of
        (Inl x, w') \<Rightarrow> (Inr ''Something went wrong :('', w')
      | (Inr answer, w') \<Rightarrow> (Inr answer, w'))"

fun send_sub_lines ::
  "('d, 'c) env \<Rightarrow> string \<Rightarrow> ('d, 'c) world \<Rightarrow> string list \<Rightarrow> exn option \<times> ('d, 'c) world" where
  \<comment> \<open>the inner \<open>for\<close> of \<open>send_msg\<close>: one \<open>privmsg\<close> per piece, until one raises\<close>
  "send_sub_lines E target w [] = (None, w)"
| "send_sub_lines E target w (sub_line # rest) =
     (case privmsg E (conn w) target sub_line of
        (Some x, c') \<Rightarrow> (Some x, record_call (Privmsg target sub_line) (w\<lparr>conn := c'\<rparr>))
      | (None, c') \<Rightarrow>
          send_sub_lines E target (record_call (Privmsg target sub_line) (w\<lparr>conn := c'\<rparr>)) rest)"

fun send_lines ::
  "('d, 'c) env \<Rightarrow> string \<Rightarrow> ('d, 'c) world \<Rightarrow> string list \<Rightarrow> exn option \<times> ('d, 'c) world" where
  \<comment> \<open>the outer \<open>for\<close> of \<open>send_msg\<close>\<close>
  "send_lines E target w [] = (None, w)"
| "send_lines E target w (line # rest) =
     (case send_sub_lines E target w (findall_dot 510 line) of
        (Some x, w') \<Rightarrow> (Some x, w')
      | (None, w') \<Rightarrow> send_lines E target w' rest)"

definition send_msg :: "('d, 'c) env \<Rightarrow> ('d, 'c) world \<Rightarrow> string \<Rightarrow> string \<Rightarrow> ('d, 'c) world" where
  \<comment> \<open>an exception of the loops is caught and printed\<close>
  "send_msg E w target msg = snd (send_lines E target w (split_nl msg))"

definition post_news ::
  "('d, 'c) env \<Rightarrow> ('d, 'c) world \<Rightarrow> string \<Rightarrow> string \<Rightarrow> string \<Rightarrow> string \<Rightarrow> ('d, 'c) world" where
  "post_news E w feed_name ttl url date =
     send_msg E w (CHANNEL E) (feed_name @ '': '' @ ttl @ '', '' @ url @ '', '' @ date)"

record event =
  source_nick :: string
  arguments :: "string list"

definition on_privmsg ::
  "('d, 'c) env \<Rightarrow> ('d, 'c) world \<Rightarrow> event \<Rightarrow> exn option \<times> ('d, 'c) world" where
  "on_privmsg E w ev =
     (case arguments ev of
        [] \<Rightarrow> (None, w)
      | a # _ \<Rightarrow>
          (case handle_msg E w (strip (lower a)) of
             (Inl x, w') \<Rightarrow> (Some x, w')
           | (Inr answer, w') \<Rightarrow> (None, send_msg E w' (source_nick ev) answer)))"

definition on_pubmsg :: "('d, 'c) env \<Rightarrow> ('d, 'c) world \<Rightarrow> event \<Rightarrow> ('d, 'c) world" where
  "on_pubmsg E w ev =
     (case arguments ev of
        [] \<Rightarrow> w
      | a # _ \<Rightarrow>
          if strip (lower a) = ''!help''
          then send_msg E w (source_nick ev) (help_msg E (conn w))
          else w)"

definition on_nicknameinuse ::
  "('d, 'c) env \<Rightarrow> ('d, 'c) world \<Rightarrow> exn option \<times> ('d, 'c) world" where
  "on_nicknameinuse E w =
     (case nick E (conn w) (get_nickname E (conn w) @ ''_'') of
        (r, c') \<Rightarrow> (r, record_call (Nick (get_nickname E (conn w) @ ''_'')) (w\<lparr>conn := c'\<rparr>)))"

section \<open>Bot: one cycle of the fetcher\<close>

text \<open>
  \<open>__fetch_feed\<close> repeats two statements for ever: the \<open>try\<close> statement, which is
  \<open>fetch_cycle\<close> below, and \<open>time.sleep(int(feed_info[3])*60)\<close>. What follows is about
  one pass of the loop.
\<close>

definition newsdate :: "entry \<Rightarrow> string" where
  \<comment> \<open>the nested \<open>try\<close> of lines 172 to 178\<close>
  "newsdate e =
     (case published e of
        Some p \<Rightarrow> p
      | None \<Rightarrow> (case updated e of Some u \<Rightarrow> u | None \<Rightarrow> ''no date''))"

definition process_entry ::
  "('d, 'c) env \<Rightarrow> feed \<Rightarrow> ('d, 'c) world \<Rightarrow> entry \<Rightarrow> exn option \<times> ('d, 'c) world" where
  \<comment> \<open>the body of the \<open>for\<close> loop of \<open>__fetch_feed\<close>; \<open>Some x\<close> is an exception leaving it\<close>
  "process_entry E feed_info w newsitem =
     (case feed_info of Feed fid fname furl ffreq \<Rightarrow>
      (case title newsitem of
         None \<Rightarrow> (Some AttributeError, w)
       | Some newstitle \<Rightarrow>
      (case link newsitem of
         None \<Rightarrow> (Some AttributeError, w)
       | Some l \<Rightarrow>
      (case create_one E l of
         Inl x \<Rightarrow> (Some x, record_call (CreateOne l) w)
       | Inr short \<Rightarrow>
      (case insert_news E (db w) fid newstitle
              (if short = ''Error'' then l else short) (newsdate newsitem) of
         (Inl x, d') \<Rightarrow>
           (Some x,
            record_call (InsertNews fid newstitle
                (if short = ''Error'' then l else short) (newsdate newsitem))
              (record_call (CreateOne l) (w\<lparr>db := d'\<rparr>)))
       | (Inr is_new, d') \<Rightarrow>
           (None,
            if is_new
            then post_news E
                   (record_call (InsertNews fid newstitle
                       (if short = ''Error'' then l else short) (newsdate newsitem))
                     (record_call (CreateOne l) (w\<lparr>db := d'\<rparr>)))
                   fname newstitle (if short = ''Error'' then l else short) (newsdate newsitem)
            else record_call (InsertNews fid newstitle
                     (if short = ''Error'' then l else short) (newsdate newsitem))
                   (record_call (CreateOne l) (w\<lparr>db := d'\<rparr>))))))))"

fun process_entries ::
  "('d, 'c) env \<Rightarrow> feed \<Rightarrow> ('d, 'c) world \<Rightarrow> entry list \<Rightarrow> exn option \<times> ('d, 'c) world" where
  \<comment> \<open>the \<open>for\<close> loop, over the list it is given; an exception ends it\<close>
  "process_entries E feed_info w [] = (None, w)"
| "process_entries E feed_info w (newsitem # rest) =
     (case process_entry E feed_info w newsitem of
        (Some x, w') \<Rightarrow> (Some x, w')
      | (None, w') \<Rightarrow> process_entries E feed_info w' rest)"

definition fetch_cycle ::
  "('d, 'c) env \<Rightarrow> feed \<Rightarrow> ('d, 'c) world \<Rightarrow> exn option \<times> ('d, 'c) world" where
  \<comment> \<open>the \<open>try\<close> statement inside \<open>while 1\<close>: \<open>None\<close> is the branch that prints "Updated",
      \<open>Some x\<close> the \<open>except\<close> branch that prints \<open>x\<close> and "Failed"\<close>
  "fetch_cycle E feed_info w =
     (case feed_info of Feed fid fname furl ffreq \<Rightarrow>
      (case parse E furl of
         Inl x \<Rightarrow> (Some x, record_call (Parse furl) w)
       | Inr entries \<Rightarrow>
           process_entries E feed_info (record_call (Parse furl) w) (rev entries)))"

section \<open>What a trace shows\<close>

text \<open>
  The pieces \<open>send_msg\<close> cuts a message into: the lines of \<open>split\<close>, each cut by
  \<open>findall\<close>, in the order of the two loops.
\<close>

definition msg_pieces :: "string \<Rightarrow> string list" where
  "msg_pieces msg = concat (map (findall_dot 510) (split_nl msg))"

fun is_privmsg :: "call \<Rightarrow> bool" where
  "is_privmsg (Privmsg target text) = True"
| "is_privmsg c = False"

fun inserted :: "call list \<Rightarrow> (int \<times> string \<times> string \<times> string) list" where
  \<comment> \<open>the arguments of the \<open>insert_news\<close> calls of a trace, in order\<close>
  "inserted [] = []"
| "inserted (InsertNews f t u d # cs) = (f, t, u, d) # inserted cs"
| "inserted (c # cs) = inserted cs"

definition entry_row ::
  "('d, 'c) env \<Rightarrow> int \<Rightarrow> entry \<Rightarrow> exn + (int \<times> string \<times> string \<times> string)" where
  \<comment> \<open>lines 166 to 178 for one entry: the arguments \<open>insert_news\<close> is going to get, or the
      exception raised before the call\<close>
  "entry_row E fid e =
     (case title e of
        None \<Rightarrow> Inl AttributeError
      | Some t \<Rightarrow>
     (case link e of
        None \<Rightarrow> Inl AttributeError
      | Some l \<Rightarrow>
     (case create_one E l of
        Inl x \<Rightarrow> Inl x
      | Inr short \<Rightarrow> Inr (fid, t, if short = ''Error'' then l else short, newsdate e))))"

definition announcement :: "string \<Rightarrow> int \<times> string \<times> string \<times> string \<Rightarrow> string" where
  \<comment> \<open>the text \<open>post_news\<close> builds for a row\<close>
  "announcement fname row =
     (case row of (f, t, u, d) \<Rightarrow> fname @ '': '' @ t @ '', '' @ u @ '', '' @ d)"

fun attempted :: "('d, 'c) env \<Rightarrow> 'c \<Rightarrow> string \<Rightarrow> string list \<Rightarrow> string list" where
  \<comment> \<open>the pieces handed to \<open>privmsg\<close> when the loops of \<open>send_msg\<close> run over them from the
      connection state \<open>c\<close>: every piece up to and including the first on which the
      connection raises\<close>
  "attempted E c target [] = []"
| "attempted E c target (p # ps) =
     (case privmsg E c target p of
        (Some x, c') \<Rightarrow> [p]
      | (None, c') \<Rightarrow> p # attempted E c' target ps)"

fun new_rows ::
  "('d, 'c) env \<Rightarrow> 'd \<Rightarrow> (int \<times> string \<times> string \<times> string) list
     \<Rightarrow> (int \<times> string \<times> string \<times> string) list" where
  \<comment> \<open>the rows for which \<open>insert_news\<close> answers true when the rows are inserted in this
      order from the FeedDB state \<open>d\<close>; an insert that raises ends the cycle\<close>
  "new_rows E d [] = []"
| "new_rows E d ((f, t, u, dt) # rows) =
     (case insert_news E d f t u dt of
        (Inl x, d') \<Rightarrow> []
      | (Inr is_new, d') \<Rightarrow> (if is_new then [(f, t, u, dt)] else []) @ new_rows E d' rows)"

definition spec_date :: "entry \<Rightarrow> string" where
  \<comment> \<open>the date as the specification words it: the published timestamp if present,
      otherwise the updated timestamp if present, otherwise "no date"\<close>
  "spec_date e =
     (if published e \<noteq> None then the (published e)
      else if updated e \<noteq> None then the (updated e)
      else ''no date'')"

section \<open>A sample deployment\<close>

definition mem_insert_news ::
  "(int \<times> string \<times> string \<times> string) list \<Rightarrow> int \<Rightarrow> string \<Rightarrow> string \<Rightarrow> string
     \<Rightarrow> (exn + bool) \<times> (int \<times> string \<times> string \<times> string) list" where
  \<comment> \<open>Modelled from the spec: db.py (\<open>FeedDB.insert_news\<close>) is not among the sources. The
      specification gives \<open>insert_news_if_new(feed_id, title, url, date) -> boolean\<close>, true
      iff newly inserted, with uniqueness keyed on (feed id, url).\<close>
  "mem_insert_news d fid t u dt =
     (if (fid, u) \<in> set (map (\<lambda>(f, t', u', dt'). (f, u')) d) then (Inr False, d)
      else (Inr True, d @ [(fid, t, u, dt)]))"

definition sample_feed :: feed where
  "sample_feed = Feed 1 ''blog'' ''http://example.org/rss'' 5"

definition sample_entries :: "entry list" where
  \<comment> \<open>a feed document, newest entry first\<close>
  "sample_entries =
     [\<lparr>title = Some ''second'', link = Some ''http://example.org/2'',
       published = Some ''Tue'', updated = None\<rparr>,
      \<lparr>title = Some ''first'', link = Some ''http://example.org/1'',
       published = None, updated = None\<rparr>]"

text \<open>
  In the sample the FeedDB is a list of rows, tinyurl answers its error marker, and the
  connection is the nickname it reports. As in irc.client, \<open>nick\<close> only sends the NICK
  line: the nickname \<open>get_nickname\<close> reports changes when the server confirms, which it
  has not done by the time it answers "nickname in use" again.
\<close>

definition sample_env :: "((int \<times> string \<times> string \<times> string) list, string) env" where
  "sample_env =
     \<lparr>CHANNEL = ''#news'',
      get_feeds = (\<lambda>d. Inr [sample_feed]),
      get_feeds_count = (\<lambda>d. Inr 1),
      get_news_count = (\<lambda>d. Inr (int (length d))),
      get_latest_news = (\<lambda>d. Inr (map (\<lambda>(f, t, u, dt). News f t u dt) (take 25 (rev d)))),
      get_news_from_feed = (\<lambda>d fid. Inr (map (\<lambda>(f, t, u, dt). News f t u dt)
                                (take 25 (rev (filter (\<lambda>r. fst r = fid) d))))),
      insert_news = mem_insert_news,
      create_one = (\<lambda>u. Inr ''Error''),
      parse = (\<lambda>u. Inr sample_entries),
      privmsg = (\<lambda>c t s. (None, c)),
      nick = (\<lambda>c n. (None, c)),
      get_nickname = (\<lambda>c. c)\<rparr>"

definition sample_world :: "((int \<times> string \<times> string \<times> string) list, string) world" where
  "sample_world = \<lparr>db = [], conn = ''rssbot'', calls = []\<rparr>"


section \<open>Lemmas\<close>

lemma split_nl_nonempty: "split_nl s \<noteq> []"
  by (induction s) (auto simp: Let_def)


lemma findall_dot_concat: "concat (findall_dot n s) = filter (\<lambda>x. x \<noteq> CHR 0x0A) s"
proof (induction n s rule: findall_dot.induct)
  case (1 n)
  then show ?case by simp
next
  case (2 n c cs)
  show ?case
  proof (cases "c = CHR 0x0A")
    case True
    with 2 show ?thesis by simp
  next
    case False
    define m where "m = takeWhile (\<lambda>x. x \<noteq> CHR 0x0A) (take (n - 1) cs)"
    have ih: "concat (findall_dot n (drop (length m) cs)) = filter (\<lambda>x. x \<noteq> CHR 0x0A) (drop (length m) cs)"
      using 2(2)[OF False m_def] .
    have pre: "prefix m cs"
      unfolding m_def by (rule prefix_order.order_trans[OF takeWhile_is_prefix take_is_prefix])
    then obtain zs where "cs = m @ zs" by (auto simp: prefix_def)
    then have cs: "cs = m @ drop (length m) cs"
      by simp
    have "\<forall>x\<in>set m. x \<noteq> CHR 0x0A"
      unfolding m_def by (auto dest: set_takeWhileD)
    then have fm: "filter (\<lambda>x. x \<noteq> CHR 0x0A) m = m"
      by (simp add: filter_id_conv)
    have "filter (\<lambda>x. x \<noteq> CHR 0x0A) cs = m @ filter (\<lambda>x. x \<noteq> CHR 0x0A) (drop (length m) cs)"
      by (subst cs) (simp only: filter_append fm)
    with False ih show ?thesis
      by (simp add: m_def Let_def)
  qed
qed




lemma send_sub_lines_prefix:
  "\<exists>qs. prefix qs ps \<and> calls (snd (send_sub_lines E t w ps)) = calls w @ map (Privmsg t) qs"
proof (induction ps arbitrary: w)
  case Nil
  then show ?case by simp
next
  case (Cons p ps)
  obtain r c' where pm: "privmsg E (conn w) t p = (r, c')" by (cases "privmsg E (conn w) t p")
  show ?case
  proof (cases r)
    case None
    obtain qs where "prefix qs ps"
      and "calls (snd (send_sub_lines E t (record_call (Privmsg t p) (w\<lparr>conn := c'\<rparr>)) ps))
           = calls (record_call (Privmsg t p) (w\<lparr>conn := c'\<rparr>)) @ map (Privmsg t) qs"
      using Cons.IH by blast
    with pm None have "prefix (p # qs) (p # ps) \<and>
        calls (snd (send_sub_lines E t w (p # ps))) = calls w @ map (Privmsg t) (p # qs)"
      by (simp add: record_call_def)
    then show ?thesis by blast
  next
    case (Some x)
    with pm have "prefix [p] (p # ps) \<and>
        calls (snd (send_sub_lines E t w (p # ps))) = calls w @ map (Privmsg t) [p]"
      by (simp add: record_call_def)
    then show ?thesis by blast
  qed
qed

lemma send_sub_lines_None:
  "fst (send_sub_lines E t w ps) = None \<Longrightarrow>
   calls (snd (send_sub_lines E t w ps)) = calls w @ map (Privmsg t) ps"
  by (induction ps arbitrary: w) (auto simp: record_call_def split: prod.splits option.splits)

lemma send_sub_lines_accepts:
  "\<forall>c t s. fst (privmsg E c t s) = None \<Longrightarrow> fst (send_sub_lines E t w ps) = None"
proof (induction ps arbitrary: w)
  case Nil
  then show ?case by simp
next
  case (Cons p ps)
  obtain r c' where pm: "privmsg E (conn w) t p = (r, c')" by (cases "privmsg E (conn w) t p")
  with Cons.prems have "r = None" by (metis fst_conv)
  with pm Cons show ?case by simp
qed

lemma send_lines_prefix:
  "\<exists>qs. prefix qs (concat (map (findall_dot 510) ls)) \<and>
        calls (snd (send_lines E t w ls)) = calls w @ map (Privmsg t) qs"
proof (induction ls arbitrary: w)
  case Nil
  then show ?case by simp
next
  case (Cons l ls)
  obtain r w' where s: "send_sub_lines E t w (findall_dot 510 l) = (r, w')"
    by (cases "send_sub_lines E t w (findall_dot 510 l)")
  show ?case
  proof (cases r)
    case None
    with s have c1: "calls w' = calls w @ map (Privmsg t) (findall_dot 510 l)"
      using send_sub_lines_None[of E t w "findall_dot 510 l"] by simp
    obtain qs where "prefix qs (concat (map (findall_dot 510) ls))"
      and "calls (snd (send_lines E t w' ls)) = calls w' @ map (Privmsg t) qs"
      using Cons.IH by blast
    with s None c1 have "prefix (findall_dot 510 l @ qs) (concat (map (findall_dot 510) (l # ls))) \<and>
        calls (snd (send_lines E t w (l # ls))) = calls w @ map (Privmsg t) (findall_dot 510 l @ qs)"
      by simp
    then show ?thesis by blast
  next
    case (Some x)
    obtain qs where "prefix qs (findall_dot 510 l)"
      and "calls (snd (send_sub_lines E t w (findall_dot 510 l))) = calls w @ map (Privmsg t) qs"
      using send_sub_lines_prefix by blast
    with s Some have "prefix qs (concat (map (findall_dot 510) (l # ls))) \<and>
        calls (snd (send_lines E t w (l # ls))) = calls w @ map (Privmsg t) qs"
      by (auto simp: prefix_def)
    then show ?thesis by blast
  qed
qed

lemma send_lines_accepts:
  "\<forall>c t s. fst (privmsg E c t s) = None \<Longrightarrow>
   calls (snd (send_lines E t w ls)) = calls w @ map (Privmsg t) (concat (map (findall_dot 510) ls))"
proof (induction ls arbitrary: w)
  case Nil
  then show ?case by simp
next
  case (Cons l ls)
  obtain r w' where s: "send_sub_lines E t w (findall_dot 510 l) = (r, w')"
    by (cases "send_sub_lines E t w (findall_dot 510 l)")
  have r: "r = None"
    using send_sub_lines_accepts[OF Cons.prems, of t w "findall_dot 510 l"] s by simp
  with s have "calls w' = calls w @ map (Privmsg t) (findall_dot 510 l)"
    using send_sub_lines_None[of E t w "findall_dot 510 l"] by simp
  with s r Cons show ?case by simp
qed

lemma send_msg_prefix:
  "\<exists>qs. prefix qs (msg_pieces msg) \<and> calls (send_msg E w t msg) = calls w @ map (Privmsg t) qs"
  unfolding send_msg_def msg_pieces_def by (rule send_lines_prefix)

lemma send_msg_accepts:
  "\<forall>c t s. fst (privmsg E c t s) = None \<Longrightarrow>
   calls (send_msg E w t msg) = calls w @ map (Privmsg t) (msg_pieces msg)"
  unfolding send_msg_def msg_pieces_def by (rule send_lines_accepts)

lemma msg_pieces_concat: "concat (msg_pieces msg) = filter (\<lambda>x. x \<noteq> CHR 0x0A) msg"
proof -
  have "concat (map (filter (\<lambda>x. x \<noteq> CHR 0x0A)) (split_nl s)) = filter (\<lambda>x. x \<noteq> CHR 0x0A) s" for s
  proof (induction s)
    case Nil
    then show ?case by simp
  next
    case (Cons c cs)
    then show ?case using split_nl_nonempty[of cs]
      by (cases "split_nl cs") (auto simp: Let_def)
  qed
  moreover have "concat (concat (map (findall_dot 510) ls)) = concat (map (filter (\<lambda>x. x \<noteq> CHR 0x0A)) ls)" for ls
    by (induction ls) (auto simp: findall_dot_concat)
  ultimately show ?thesis by (simp add: msg_pieces_def)
qed


lemma inserted_append: "inserted (xs @ ys) = inserted xs @ inserted ys"
  by (induction xs rule: inserted.induct) simp_all

lemma inserted_privmsgs: "inserted (map (Privmsg t) qs) = []"
  by (induction qs) simp_all

lemma filter_privmsgs: "filter is_privmsg (map (Privmsg t) qs) = map (Privmsg t) qs"
  by (induction qs) simp_all

lemma process_entry_raises:
  assumes "entry_row E fid e = Inl x"
  shows "\<exists>new. process_entry E (Feed fid fname furl ffreq) w e = (Some x, w\<lparr>calls := calls w @ new\<rparr>) \<and>
               inserted new = [] \<and> filter is_privmsg new = []"
proof (cases "title e")
  case None
  with assms have "process_entry E (Feed fid fname furl ffreq) w e = (Some x, w\<lparr>calls := calls w @ []\<rparr>)"
    by (simp add: process_entry_def entry_row_def)
  then show ?thesis by (intro exI[of _ "[]"]) simp
next
  case (Some t)
  show ?thesis
  proof (cases "link e")
    case None
    with Some assms have "process_entry E (Feed fid fname furl ffreq) w e = (Some x, w\<lparr>calls := calls w @ []\<rparr>)"
      by (simp add: process_entry_def entry_row_def)
    then show ?thesis by (intro exI[of _ "[]"]) simp
  next
    case l: (Some l)
    with Some assms have "create_one E l = Inl x"
      by (simp add: entry_row_def split: sum.splits)
    with Some l have "process_entry E (Feed fid fname furl ffreq) w e
        = (Some x, w\<lparr>calls := calls w @ [CreateOne l]\<rparr>)"
      by (simp add: process_entry_def record_call_def)
    then show ?thesis by (intro exI[of _ "[CreateOne l]"]) simp
  qed
qed

lemma process_entry_inserts:
  assumes "entry_row E fid e = Inr (f, t, u, d)"
  shows "\<exists>new qs. calls (snd (process_entry E (Feed fid fname furl ffreq) w e)) = calls w @ new \<and>
           inserted new = [(f, t, u, d)] \<and>
           prefix qs (msg_pieces (announcement fname (f, t, u, d))) \<and>
           filter is_privmsg new =
             (if fst (insert_news E (db w) f t u d) = Inr True
              then map (Privmsg (CHANNEL E)) qs else []) \<and>
           ((\<forall>c t s. fst (privmsg E c t s) = None) \<longrightarrow>
              qs = msg_pieces (announcement fname (f, t, u, d)))"
proof -
  from assms obtain l s where t: "title e = Some t" and l: "link e = Some l"
    and s: "create_one E l = Inr s" and u: "u = (if s = ''Error'' then l else s)"
    and d: "d = newsdate e" and f: "f = fid"
    by (auto simp: entry_row_def split: option.splits sum.splits)
  obtain res d' where ins: "insert_news E (db w) fid t u d = (res, d')"
    by (cases "insert_news E (db w) fid t u d")
  define w2 where "w2 = record_call (InsertNews fid t u d) (record_call (CreateOne l) (w\<lparr>db := d'\<rparr>))"
  have c2: "calls w2 = calls w @ [CreateOne l, InsertNews fid t u d]"
    by (simp add: w2_def record_call_def)
  show ?thesis
  proof (cases "res = Inr True")
    case True
    have pe: "snd (process_entry E (Feed fid fname furl ffreq) w e) = post_news E w2 fname t u d"
      using t l s ins True u[symmetric] d[symmetric]
      by (simp add: process_entry_def w2_def)
    obtain qs where q: "prefix qs (msg_pieces (announcement fname (f, t, u, d)))"
      and cq: "calls (post_news E w2 fname t u d) = calls w2 @ map (Privmsg (CHANNEL E)) qs"
      and full: "(\<forall>c t s. fst (privmsg E c t s) = None) \<longrightarrow>
                   qs = msg_pieces (announcement fname (f, t, u, d))"
    proof (cases "\<forall>c t s. fst (privmsg E c t s) = None")
      case True
      then have "calls (post_news E w2 fname t u d)
          = calls w2 @ map (Privmsg (CHANNEL E)) (msg_pieces (announcement fname (f, t, u, d)))"
        using send_msg_accepts[of E w2 "CHANNEL E"] by (simp add: post_news_def announcement_def)
      then show ?thesis using that[of "msg_pieces (announcement fname (f, t, u, d))"] by simp
    next
      case False
      obtain qs where "prefix qs (msg_pieces (announcement fname (f, t, u, d)))"
        and "calls (post_news E w2 fname t u d) = calls w2 @ map (Privmsg (CHANNEL E)) qs"
        using send_msg_prefix[of "announcement fname (f, t, u, d)" E w2 "CHANNEL E"]
        by (auto simp: post_news_def announcement_def)
      then show ?thesis using that[of qs] False by simp
    qed
    have "calls (snd (process_entry E (Feed fid fname furl ffreq) w e))
        = calls w @ ([CreateOne l, InsertNews fid t u d] @ map (Privmsg (CHANNEL E)) qs)"
      using pe cq c2 by simp
    moreover have "inserted ([CreateOne l, InsertNews fid t u d] @ map (Privmsg (CHANNEL E)) qs)
        = [(f, t, u, d)]"
      by (simp add: inserted_privmsgs f)
    moreover have "filter is_privmsg ([CreateOne l, InsertNews fid t u d] @ map (Privmsg (CHANNEL E)) qs)
        = (if fst (insert_news E (db w) f t u d) = Inr True then map (Privmsg (CHANNEL E)) qs else [])"
      using ins True by (simp add: filter_privmsgs f)
    ultimately show ?thesis using q full by blast
  next
    case False
    have pe: "snd (process_entry E (Feed fid fname furl ffreq) w e) = w2"
      using t l s ins False u[symmetric] d[symmetric]
      by (cases res) (auto simp: process_entry_def w2_def)
    have "calls (snd (process_entry E (Feed fid fname furl ffreq) w e))
        = calls w @ [CreateOne l, InsertNews fid t u d]"
      using pe c2 by simp
    moreover have "inserted [CreateOne l, InsertNews fid t u d] = [(f, t, u, d)]"
      by (simp add: f)
    moreover have "filter is_privmsg [CreateOne l, InsertNews fid t u d]
        = (if fst (insert_news E (db w) f t u d) = Inr True
           then map (Privmsg (CHANNEL E)) (msg_pieces (announcement fname (f, t, u, d))) else [])"
      using ins False by (simp add: f)
    ultimately show ?thesis by blast
  qed
qed

lemma process_entries_trace:
  "\<exists>new. calls (snd (process_entries E (Feed fid fname furl ffreq) w es)) = calls w @ new \<and>
     prefix (map Inr (inserted new)) (map (entry_row E fid) es) \<and>
     (fst (process_entries E (Feed fid fname furl ffreq) w es) = None \<longrightarrow>
        map Inr (inserted new) = map (entry_row E fid) es) \<and>
     ((\<forall>c t s. fst (privmsg E c t s) = None) \<longrightarrow>
        (\<exists>rows. subseq rows (inserted new) \<and>
           filter is_privmsg new =
             concat (map (\<lambda>row. map (Privmsg (CHANNEL E)) (msg_pieces (announcement fname row))) rows)))"
  (is "\<exists>new. ?P w es new")
proof (induction es arbitrary: w)
  case Nil
  show ?case
  proof (rule exI[of _ "[]"], intro conjI impI)
    show "\<exists>rows. subseq rows (inserted []) \<and> filter is_privmsg [] =
        concat (map (\<lambda>row. map (Privmsg (CHANNEL E)) (msg_pieces (announcement fname row))) rows)"
      by (rule exI[of _ "[]"]) simp
  qed simp_all
next
  case (Cons e es)
  let ?A = "\<lambda>row. map (Privmsg (CHANNEL E)) (msg_pieces (announcement fname row))"
  let ?F = "Feed fid fname furl ffreq"
  obtain r w' where pe: "process_entry E ?F w e = (r, w')"
    by (cases "process_entry E ?F w e")
  show ?case
  proof (cases "entry_row E fid e")
    case (Inl x)
    from process_entry_raises[OF Inl, of fname furl ffreq w] obtain new
      where p: "process_entry E ?F w e = (Some x, w\<lparr>calls := calls w @ new\<rparr>)"
        and i: "inserted new = []" and a: "filter is_privmsg new = []"
      by blast
    have st: "process_entries E ?F w (e # es) = (Some x, w\<lparr>calls := calls w @ new\<rparr>)"
      using p by simp
    show ?thesis
    proof (rule exI[of _ new], intro conjI impI)
      show "calls (snd (process_entries E ?F w (e # es))) = calls w @ new"
        unfolding st by simp
      show "prefix (map Inr (inserted new)) (map (entry_row E fid) (e # es))"
        by (simp add: i)
      show "map Inr (inserted new) = map (entry_row E fid) (e # es)"
        if "fst (process_entries E ?F w (e # es)) = None"
        using that unfolding st by simp
      show "\<exists>rows. subseq rows (inserted new) \<and> filter is_privmsg new = concat (map ?A rows)"
        by (rule exI[of _ "[]"]) (simp add: a)
    qed
  next
    case (Inr row)
    obtain f t u d where row: "row = (f, t, u, d)" by (cases row)
    from process_entry_inserts[OF Inr[unfolded row], of fname furl ffreq w] obtain new1 qs
      where n1': "calls (snd (process_entry E ?F w e)) = calls w @ new1"
        and i1': "inserted new1 = [(f, t, u, d)]"
        and p1: "filter is_privmsg new1 =
              (if fst (insert_news E (db w) f t u d) = Inr True then map (Privmsg (CHANNEL E)) qs else [])"
        and q1': "(\<forall>c t s. fst (privmsg E c t s) = None) \<longrightarrow>
                    qs = msg_pieces (announcement fname (f, t, u, d))"
      by blast
    have n1: "calls w' = calls w @ new1" using n1' pe by simp
    have i1: "inserted new1 = [row]" using i1' row by simp
    define rows1 where "rows1 = (if fst (insert_news E (db w) f t u d) = Inr True then [row] else [])"
    have s1: "subseq rows1 [row]" by (simp add: rows1_def)
    have a1: "filter is_privmsg new1 = concat (map ?A rows1)"
      if "\<forall>c t s. fst (privmsg E c t s) = None"
      using p1 q1' that by (simp add: rows1_def row)
    show ?thesis
    proof (cases r)
      case (Some x)
      have st: "process_entries E ?F w (e # es) = (Some x, w')"
        using pe Some by simp
      show ?thesis
      proof (rule exI[of _ new1], intro conjI impI)
        show "calls (snd (process_entries E ?F w (e # es))) = calls w @ new1"
          unfolding st by (simp add: n1)
        show "prefix (map Inr (inserted new1)) (map (entry_row E fid) (e # es))"
          by (simp add: i1 Inr)
        show "map Inr (inserted new1) = map (entry_row E fid) (e # es)"
          if "fst (process_entries E ?F w (e # es)) = None"
          using that unfolding st by simp
        show "\<exists>rows. subseq rows (inserted new1) \<and> filter is_privmsg new1 = concat (map ?A rows)"
          if "\<forall>c t s. fst (privmsg E c t s) = None"
          using a1[OF that] s1 i1 by (intro exI[of _ rows1]) simp
      qed
    next
      case None
      from Cons.IH[of w'] obtain new2 where h2: "?P w' es new2"
        by (erule exE)
      have n2: "calls (snd (process_entries E ?F w' es)) = calls w' @ new2"
        using h2 by (rule conjunct1)
      have i2: "prefix (map Inr (inserted new2)) (map (entry_row E fid) es)"
        using h2 by (elim conjE)
      have f2: "fst (process_entries E ?F w' es) = None \<longrightarrow>
                  map Inr (inserted new2) = map (entry_row E fid) es"
        using h2 by (elim conjE)
      have a2: "(\<forall>c t s. fst (privmsg E c t s) = None) \<longrightarrow>
                  (\<exists>rows. subseq rows (inserted new2) \<and> filter is_privmsg new2 = concat (map ?A rows))"
        using h2 by (elim conjE)
      have st: "process_entries E ?F w (e # es) = process_entries E ?F w' es"
        using pe None by simp
      have ins: "inserted (new1 @ new2) = row # inserted new2"
        by (simp add: inserted_append i1)
      show ?thesis
      proof (rule exI[of _ "new1 @ new2"], intro conjI impI)
        show "calls (snd (process_entries E ?F w (e # es))) = calls w @ new1 @ new2"
          unfolding st by (simp add: n1 n2)
        show "prefix (map Inr (inserted (new1 @ new2))) (map (entry_row E fid) (e # es))"
          using i2 by (simp add: ins Inr)
        show "map Inr (inserted (new1 @ new2)) = map (entry_row E fid) (e # es)"
          if "fst (process_entries E ?F w (e # es)) = None"
          using that f2 unfolding st by (simp add: ins Inr)
        show "\<exists>rows. subseq rows (inserted (new1 @ new2)) \<and>
                filter is_privmsg (new1 @ new2) = concat (map ?A rows)"
          if acc: "\<forall>c t s. fst (privmsg E c t s) = None"
        proof -
          from a2 acc obtain rows2 where s2: "subseq rows2 (inserted new2)"
            and p2: "filter is_privmsg new2 = concat (map ?A rows2)" by blast
          have "subseq (rows1 @ rows2) ([row] @ inserted new2)"
            using s1 s2 by (rule list_emb_append_mono)
          then have "subseq (rows1 @ rows2) (inserted (new1 @ new2))"
            by (simp add: ins)
          moreover have "filter is_privmsg (new1 @ new2) = concat (map ?A (rows1 @ rows2))"
            using a1[OF acc] p2 by simp
          ultimately show ?thesis by (intro exI[of _ "rows1 @ rows2"]) simp
        qed
      qed
    qed
  qed
qed

lemma send_sub_lines_append:
  "send_sub_lines E t w (ps @ qs) =
     (case send_sub_lines E t w ps of
        (Some x, w') \<Rightarrow> (Some x, w')
      | (None, w') \<Rightarrow> send_sub_lines E t w' qs)"
  by (induction ps arbitrary: w) (auto split: prod.splits option.splits)

lemma send_lines_flat:
  "send_lines E t w ls = send_sub_lines E t w (concat (map (findall_dot 510) ls))"
  by (induction ls arbitrary: w) (auto simp: send_sub_lines_append split: prod.splits option.splits)

lemma send_sub_lines_attempted:
  "calls (snd (send_sub_lines E t w ps)) = calls w @ map (Privmsg t) (attempted E (conn w) t ps) \<and>
   db (snd (send_sub_lines E t w ps)) = db w"
  by (induction ps arbitrary: w) (auto simp: record_call_def split: prod.splits option.splits)

lemma send_msg_attempted:
  "calls (send_msg E w t msg) = calls w @ map (Privmsg t) (attempted E (conn w) t (msg_pieces msg))"
  by (simp add: send_msg_def msg_pieces_def send_lines_flat send_sub_lines_attempted)

lemma send_msg_db: "db (send_msg E w t msg) = db w"
  by (simp add: send_msg_def send_lines_flat send_sub_lines_attempted)


lemma attempted_Nil_iff: "attempted E c t ps = [] \<longleftrightarrow> ps = []"
  by (cases ps) (auto split: prod.splits option.splits)

lemma attempted_accepts:
  "\<forall>c t s. fst (privmsg E c t s) = None \<Longrightarrow> attempted E c t ps = ps"
proof (induction ps arbitrary: c)
  case Nil
  then show ?case by simp
next
  case (Cons p ps)
  obtain r c' where pm: "privmsg E c t p = (r, c')" by (cases "privmsg E c t p")
  with Cons.prems have "r = None" by (metis fst_conv)
  with pm Cons show ?case by simp
qed

lemma new_rows_subseq: "subseq (new_rows E d rows) rows"
  by (induction E d rows rule: new_rows.induct) (auto split: prod.splits sum.splits)


lemma process_entry_exact:
  assumes "title e = Some t" and "link e = Some l" and "create_one E l = Inr s"
    and "insert_news E (db w) fid t (if s = ''Error'' then l else s) (newsdate e) = (res, d')"
  shows "fst (process_entry E (Feed fid fname furl ffreq) w e)
           = (case res of Inl x \<Rightarrow> Some x | Inr b \<Rightarrow> None) \<and>
         db (snd (process_entry E (Feed fid fname furl ffreq) w e)) = d' \<and>
         calls (snd (process_entry E (Feed fid fname furl ffreq) w e))
           = calls w @ [CreateOne l, InsertNews fid t (if s = ''Error'' then l else s) (newsdate e)] @
             (if res = Inr True
              then map (Privmsg (CHANNEL E))
                     (attempted E (conn w) (CHANNEL E)
                        (msg_pieces (fname @ '': '' @ t @ '', '' @ (if s = ''Error'' then l else s)
                           @ '', '' @ newsdate e)))
              else [])"
  using assms
  by (cases res)
     (auto simp: process_entry_def post_news_def send_msg_attempted send_msg_db record_call_def)

lemma attempted_all_accepts:
  assumes "\<forall>c t s. fst (privmsg E c t s) = None"
    and "list_all2 (\<lambda>qs row. \<exists>c. qs = attempted E c target (f row)) qss rows"
  shows "qss = map f rows"
  using assms(2)
  by (induction qss rows rule: list_all2_induct) (auto simp: attempted_accepts[OF assms(1)])

lemma process_entries_announces:
  "\<exists>new qss. calls (snd (process_entries E (Feed fid fname furl ffreq) w es)) = calls w @ new \<and>
     list_all2 (\<lambda>qs row. \<exists>c. qs = attempted E c (CHANNEL E) (msg_pieces (announcement fname row)))
       qss (new_rows E (db w) (inserted new)) \<and>
     filter is_privmsg new = concat (map (map (Privmsg (CHANNEL E))) qss)"
  (is "\<exists>new qss. ?P w es new qss")
proof (induction es arbitrary: w)
  case Nil
  have "?P w [] [] []" by simp
  then show ?case by blast
next
  case (Cons e es)
  let ?F = "Feed fid fname furl ffreq"
  let ?Q = "\<lambda>qs row. \<exists>c. qs = attempted E c (CHANNEL E) (msg_pieces (announcement fname row))"
  show ?case
  proof (cases "entry_row E fid e")
    case (Inl x)
    from process_entry_raises[OF Inl, of fname furl ffreq w] obtain new
      where p: "process_entry E ?F w e = (Some x, w\<lparr>calls := calls w @ new\<rparr>)"
        and i: "inserted new = []" and a: "filter is_privmsg new = []"
      by blast
    have st: "process_entries E ?F w (e # es) = (Some x, w\<lparr>calls := calls w @ new\<rparr>)"
      using p by simp
    have "?P w (e # es) new []"
      unfolding st by (simp add: i a)
    then show ?thesis by blast
  next
    case (Inr row)
    then obtain t l s where t: "title e = Some t" and l: "link e = Some l"
      and s: "create_one E l = Inr s"
      and row: "row = (fid, t, if s = ''Error'' then l else s, newsdate e)"
      by (auto simp: entry_row_def split: option.splits sum.splits)
    let ?u = "if s = ''Error'' then l else s"
    obtain res d' where ins: "insert_news E (db w) fid t ?u (newsdate e) = (res, d')"
      by (cases "insert_news E (db w) fid t ?u (newsdate e)")
    let ?w' = "snd (process_entry E ?F w e)"
    let ?att = "attempted E (conn w) (CHANNEL E) (msg_pieces (announcement fname row))"
    let ?new1 = "[CreateOne l, InsertNews fid t ?u (newsdate e)] @
        (if res = Inr True then map (Privmsg (CHANNEL E)) ?att else [])"
    from process_entry_exact[OF t l s ins, of fname furl ffreq]
    have r1: "fst (process_entry E ?F w e) = (case res of Inl x \<Rightarrow> Some x | Inr b \<Rightarrow> None)"
      and d1: "db ?w' = d'"
      and c1: "calls ?w' = calls w @ ?new1"
      by (simp_all add: row announcement_def)
    have i1: "inserted ?new1 = [row]"
      by (simp add: inserted_privmsgs row)
    have p1: "filter is_privmsg ?new1 = (if res = Inr True then map (Privmsg (CHANNEL E)) ?att else [])"
      by (simp add: filter_privmsgs)
    show ?thesis
    proof (cases res)
      case (Inl x)
      have st: "process_entries E ?F w (e # es) = (Some x, ?w')"
        using r1 Inl by (cases "process_entry E ?F w e") simp
      have "new_rows E (db w) (inserted ?new1) = []"
        unfolding i1 using ins Inl by (simp add: row)
      then have "?P w (e # es) ?new1 []"
        unfolding st using c1 p1 Inl by simp
      then show ?thesis by blast
    next
      case (Inr b)
      have st: "process_entries E ?F w (e # es) = process_entries E ?F ?w' es"
        using r1 Inr by (cases "process_entry E ?F w e") simp
      from Cons.IH[of ?w'] obtain new2 qss2 where h2: "?P ?w' es new2 qss2"
        by (elim exE)
      have n2: "calls (snd (process_entries E ?F ?w' es)) = calls ?w' @ new2"
        using h2 by (rule conjunct1)
      have l2: "list_all2 ?Q qss2 (new_rows E d' (inserted new2))"
        using h2 d1 by simp
      have f2: "filter is_privmsg new2 = concat (map (map (Privmsg (CHANNEL E))) qss2)"
        using h2 by (elim conjE)
      let ?qss1 = "if b then [?att] else []"
      have ia: "inserted (?new1 @ new2) = row # inserted new2"
        by (simp add: inserted_append inserted_privmsgs row)
      have nr: "new_rows E (db w) (inserted (?new1 @ new2))
          = (if b then [row] else []) @ new_rows E d' (inserted new2)"
        unfolding ia using ins Inr by (simp add: row)
      have q1: "list_all2 ?Q ?qss1 (if b then [row] else [])"
        by auto
      have "list_all2 ?Q (?qss1 @ qss2) (new_rows E (db w) (inserted (?new1 @ new2)))"
        unfolding nr using q1 l2 by (rule list_all2_appendI)
      moreover have "filter is_privmsg (?new1 @ new2)
          = concat (map (map (Privmsg (CHANNEL E))) (?qss1 @ qss2))"
        using p1 f2 Inr by (cases b) (simp_all add: filter_privmsgs)
      moreover have "calls (snd (process_entries E ?F w (e # es))) = calls w @ (?new1 @ new2)"
        unfolding st using n2 c1 by simp
      ultimately have "?P w (e # es) (?new1 @ new2) (?qss1 @ qss2)"
        by (intro conjI)
      then show ?thesis by blast
    qed
  qed
qed

section \<open>The claims\<close>

text \<open>
  Claim C1. For every entry the fetcher processes, the calls it adds to the trace hold
  an announcement only when \<open>insert_news\<close> was called for the entry's
  (feed id, title, url, date) and returned true, and then the Privmsg calls are the pieces
  of one announcement, all to the channel: a prefix of them, and all of them when the
  connection accepts every piece. When the entry raises before the insert, or the insert
  returns false or raises, no Privmsg call is added.
\<close>

theorem announce_only_when_new:
  "\<exists>new. calls (snd (process_entry E (Feed fid fname furl ffreq) w e)) = calls w @ new \<and>
     (case entry_row E fid e of
        Inl x \<Rightarrow> inserted new = [] \<and> filter is_privmsg new = []
      | Inr row \<Rightarrow>
          inserted new = [row] \<and>
          (\<exists>qs. prefix qs (msg_pieces (announcement fname row)) \<and>
             filter is_privmsg new =
               (if fst (insert_news E (db w) fid (fst (snd row)) (fst (snd (snd row)))
                         (snd (snd (snd row)))) = Inr True
                then map (Privmsg (CHANNEL E)) qs else []) \<and>
             ((\<forall>c t s. fst (privmsg E c t s) = None) \<longrightarrow>
                qs = msg_pieces (announcement fname row))))"
proof (cases "entry_row E fid e")
  case (Inl x)
  then show ?thesis using process_entry_raises[OF Inl, of fname furl ffreq w] by auto
next
  case (Inr row)
  obtain f t u d where row: "row = (f, t, u, d)" by (cases row)
  with Inr have f: "f = fid" by (auto simp: entry_row_def split: option.splits sum.splits)
  from process_entry_inserts[OF Inr[unfolded row], of fname furl ffreq w]
  show ?thesis unfolding Inr row f by auto
qed

theorem announce_only_when_new_witness:
  "(\<forall>c t s. fst (privmsg sample_env c t s) = None) \<and>
   (\<exists>new. calls (snd (process_entry sample_env (Feed 1 ''blog'' ''http://example.org/rss'' 5)
                        sample_world
                        \<lparr>title = Some ''first'', link = Some ''http://example.org/1'',
                         published = None, updated = None\<rparr>)) = new \<and>
      inserted new = [(1, ''first'', ''http://example.org/1'', ''no date'')] \<and>
      filter is_privmsg new =
        map (Privmsg ''#news'') (msg_pieces ''blog: first, http://example.org/1, no date''))"
proof -
  let ?e = "\<lparr>title = Some ''first'', link = Some ''http://example.org/1'',
             published = None, updated = None\<rparr>"
  have a: "\<forall>c t s. fst (privmsg sample_env c t s) = None"
    by (simp add: sample_env_def)
  have r: "entry_row sample_env 1 ?e = Inr (1, ''first'', ''http://example.org/1'', ''no date'')"
    by (simp add: entry_row_def sample_env_def newsdate_def)
  have i: "fst (insert_news sample_env (db sample_world) 1 ''first'' ''http://example.org/1''
      ''no date'') = Inr True"
    by (simp add: sample_env_def sample_world_def mem_insert_news_def)
  have c: "calls sample_world = []" "CHANNEL sample_env = ''#news''"
    by (simp_all add: sample_world_def sample_env_def)
  from announce_only_when_new [of sample_env 1 "''blog''" "''http://example.org/rss''" 5
      sample_world ?e]
  show ?thesis
    using a by (simp add: r i c announcement_def)
qed

text \<open>
  Claim C2. When the parser delivers the entries \<open>es\<close>, one cycle works through them in the
  order of \<open>rev es\<close>: the \<open>insert_news\<close> calls of the cycle are, in order, those of a
  prefix of the reversed list, and of the whole reversed list when the cycle ends without an
  exception. The announcements follow the same order: the messages to the channel are, row
  after row, those of exactly the inserted rows that \<open>insert_news\<close> reported new, each
  row's pieces handed to the connection up to the first on which it raises, and all
  the pieces of every such row when the connection raises on none.
\<close>

theorem fetch_cycle_oldest_first:
  assumes "parse E furl = Inr es"
  shows "\<exists>new. calls (snd (fetch_cycle E (Feed fid fname furl ffreq) w)) = calls w @ Parse furl # new \<and>
     prefix (map Inr (inserted new)) (map (entry_row E fid) (rev es)) \<and>
     (fst (fetch_cycle E (Feed fid fname furl ffreq) w) = None \<longrightarrow>
        map Inr (inserted new) = map (entry_row E fid) (rev es)) \<and>
     subseq (new_rows E (db w) (inserted new)) (inserted new) \<and>
     (\<exists>qss. list_all2
              (\<lambda>qs row. \<exists>c. qs = attempted E c (CHANNEL E) (msg_pieces (announcement fname row)))
              qss (new_rows E (db w) (inserted new)) \<and>
            filter is_privmsg new = concat (map (map (Privmsg (CHANNEL E))) qss)) \<and>
     ((\<forall>c t s. fst (privmsg E c t s) = None) \<longrightarrow>
        filter is_privmsg new =
          concat (map (\<lambda>row. map (Privmsg (CHANNEL E)) (msg_pieces (announcement fname row)))
                    (new_rows E (db w) (inserted new))))"
proof -
  let ?F = "Feed fid fname furl ffreq"
  let ?w = "record_call (Parse furl) w"
  let ?Q = "\<lambda>qs row. \<exists>c. qs = attempted E c (CHANNEL E) (msg_pieces (announcement fname row))"
  have fc: "fetch_cycle E ?F w = process_entries E ?F ?w (rev es)"
    using assms by (simp add: fetch_cycle_def)
  from process_entries_trace[of E fid fname furl ffreq ?w "rev es"]
  obtain new where n: "calls (snd (process_entries E ?F ?w (rev es))) = calls ?w @ new"
    and p: "prefix (map Inr (inserted new)) (map (entry_row E fid) (rev es))"
    and f: "fst (process_entries E ?F ?w (rev es)) = None \<longrightarrow>
              map Inr (inserted new) = map (entry_row E fid) (rev es)"
    by (elim exE conjE)
  from process_entries_announces[of E fid fname furl ffreq ?w "rev es"]
  obtain new' qss where n': "calls (snd (process_entries E ?F ?w (rev es))) = calls ?w @ new'"
    and l': "list_all2 ?Q qss (new_rows E (db ?w) (inserted new'))"
    and a': "filter is_privmsg new' = concat (map (map (Privmsg (CHANNEL E))) qss)"
    by (elim exE conjE)
  have eq: "new' = new" using n n' by simp
  have l: "list_all2 ?Q qss (new_rows E (db w) (inserted new))"
    using l' by (simp add: eq record_call_def)
  have a: "filter is_privmsg new = concat (map (map (Privmsg (CHANNEL E))) qss)"
    using a' by (simp add: eq)
  have full: "filter is_privmsg new =
      concat (map (\<lambda>row. map (Privmsg (CHANNEL E)) (msg_pieces (announcement fname row)))
                (new_rows E (db w) (inserted new)))"
    if acc: "\<forall>c t s. fst (privmsg E c t s) = None"
  proof -
    have "qss = map (\<lambda>row. msg_pieces (announcement fname row)) (new_rows E (db w) (inserted new))"
      using acc l by (rule attempted_all_accepts)
    then show ?thesis using a by (simp add: comp_def)
  qed
  show ?thesis
  proof (rule exI[of _ new], intro conjI impI)
    show "calls (snd (fetch_cycle E ?F w)) = calls w @ Parse furl # new"
      unfolding fc using n by (simp add: record_call_def)
    show "prefix (map Inr (inserted new)) (map (entry_row E fid) (rev es))"
      by (rule p)
    show "map Inr (inserted new) = map (entry_row E fid) (rev es)"
      if "fst (fetch_cycle E ?F w) = None"
      using that f unfolding fc by simp
    show "subseq (new_rows E (db w) (inserted new)) (inserted new)"
      by (rule new_rows_subseq)
    show "\<exists>qss. list_all2 ?Q qss (new_rows E (db w) (inserted new)) \<and>
            filter is_privmsg new = concat (map (map (Privmsg (CHANNEL E))) qss)"
      using l a by blast
    show "filter is_privmsg new =
        concat (map (\<lambda>row. map (Privmsg (CHANNEL E)) (msg_pieces (announcement fname row)))
                  (new_rows E (db w) (inserted new)))"
      if "\<forall>c t s. fst (privmsg E c t s) = None"
      using that by (rule full)
  qed
qed

theorem fetch_cycle_oldest_first_witness:
  "parse sample_env ''http://example.org/rss'' = Inr sample_entries \<and>
   (\<forall>c t s. fst (privmsg sample_env c t s) = None) \<and>
   fst (fetch_cycle sample_env (Feed 1 ''blog'' ''http://example.org/rss'' 5) sample_world) = None \<and>
   (\<exists>new. calls (snd (fetch_cycle sample_env (Feed 1 ''blog'' ''http://example.org/rss'' 5)
                        sample_world)) = Parse ''http://example.org/rss'' # new \<and>
      inserted new = [(1, ''first'', ''http://example.org/1'', ''no date''),
                      (1, ''second'', ''http://example.org/2'', ''Tue'')] \<and>
      filter is_privmsg new =
        [Privmsg ''#news'' ''blog: first, http://example.org/1, no date'',
         Privmsg ''#news'' ''blog: second, http://example.org/2, Tue''])"
proof -
  let ?F = "Feed 1 ''blog'' ''http://example.org/rss'' 5"
  let ?rows = "[(1, ''first'', ''http://example.org/1'', ''no date''),
                (1, ''second'', ''http://example.org/2'', ''Tue'')]"
  have p: "parse sample_env ''http://example.org/rss'' = Inr sample_entries"
    by (simp add: sample_env_def)
  have acc: "\<forall>c t s. fst (privmsg sample_env c t s) = None"
    by (simp add: sample_env_def)
  have n: "fst (fetch_cycle sample_env ?F sample_world) = None"
    by (simp add: fetch_cycle_def process_entry_def post_news_def send_msg_def record_call_def
        sample_env_def sample_entries_def sample_world_def mem_insert_news_def newsdate_def
        Let_def split: prod.splits)
  have r: "map (entry_row sample_env 1) (rev sample_entries) = map Inr ?rows"
    by (simp add: entry_row_def sample_env_def sample_entries_def newsdate_def)
  have nr: "new_rows sample_env (db sample_world) ?rows = ?rows"
    by (simp add: sample_env_def sample_world_def mem_insert_news_def)
  have a1: "msg_pieces (announcement ''blog'' (1, ''first'', ''http://example.org/1'', ''no date''))
      = [''blog: first, http://example.org/1, no date'']"
    by (simp add: announcement_def msg_pieces_def Let_def)
  have a2: "msg_pieces (announcement ''blog'' (1, ''second'', ''http://example.org/2'', ''Tue''))
      = [''blog: second, http://example.org/2, Tue'']"
    by (simp add: announcement_def msg_pieces_def Let_def)
  have c: "calls sample_world = []" "CHANNEL sample_env = ''#news''"
    by (simp_all add: sample_world_def sample_env_def)
  from fetch_cycle_oldest_first [OF p, of 1 "''blog''" 5 sample_world]
  obtain new where
    h1: "calls (snd (fetch_cycle sample_env ?F sample_world))
       = calls sample_world @ Parse ''http://example.org/rss'' # new"
    and h2: "fst (fetch_cycle sample_env ?F sample_world) = None
       \<longrightarrow> map Inr (inserted new) = map (entry_row sample_env 1) (rev sample_entries)"
    and h3: "(\<forall>c t s. fst (privmsg sample_env c t s) = None) \<longrightarrow>
        filter is_privmsg new =
          concat (map (\<lambda>row. map (Privmsg (CHANNEL sample_env)) (msg_pieces (announcement ''blog'' row)))
                    (new_rows sample_env (db sample_world) (inserted new)))"
    by (elim exE conjE)
  have i: "inserted new = ?rows"
    using h2 n r by (auto simp: map_eq_Cons_conv)
  from h3 acc have "filter is_privmsg new =
      concat (map (\<lambda>row. map (Privmsg (CHANNEL sample_env)) (msg_pieces (announcement ''blog'' row)))
                (new_rows sample_env (db sample_world) (inserted new)))"
    by blast
  then have "filter is_privmsg new =
        [Privmsg ''#news'' ''blog: first, http://example.org/1, no date'',
         Privmsg ''#news'' ''blog: second, http://example.org/2, Tue'']"
    by (simp only: i nr) (simp add: a1 a2 c)
  with h1 i c have "calls (snd (fetch_cycle sample_env ?F sample_world))
        = Parse ''http://example.org/rss'' # new \<and>
      inserted new = ?rows \<and>
      filter is_privmsg new =
        [Privmsg ''#news'' ''blog: first, http://example.org/1, no date'',
         Privmsg ''#news'' ''blog: second, http://example.org/2, Tue'']"
    by simp
  then show ?thesis using p acc n by blast
qed




text \<open>
  Claim C4. \<open>__handle_msg\<close> always returns a reply; when its \<open>try\<close> block raises, for
  instance because a FeedDB query fails, the reply is the generic failure text. No
  exception reaches the caller of \<open>__handle_msg\<close>, nor that of \<open>on_privmsg\<close>.
\<close>

theorem handle_msg_catches:
  "(\<exists>reply. fst (handle_msg E w msg) = Inr reply) \<and>
   (fst (handle_body E w msg) = Inl x \<longrightarrow> fst (handle_msg E w msg) = Inr ''Something went wrong :('') \<and>
   fst (on_privmsg E w ev) = None"
proof -
  have h: "\<exists>reply w'. handle_msg E w m = (Inr reply, w')" for m
    by (cases "handle_body E w m"; cases "fst (handle_body E w m)") (auto simp: handle_msg_def)
  have "fst (handle_msg E w msg) = Inr ''Something went wrong :(''"
    if "fst (handle_body E w msg) = Inl x"
    using that by (cases "handle_body E w msg") (auto simp: handle_msg_def)
  moreover have "fst (on_privmsg E w ev) = None"
  proof (cases "arguments ev")
    case Nil
    then show ?thesis by (simp add: on_privmsg_def)
  next
    case (Cons a rest)
    obtain reply w' where "handle_msg E w (strip (lower a)) = (Inr reply, w')"
      using h by blast
    with Cons show ?thesis by (simp add: on_privmsg_def)
  qed
  moreover obtain reply w' where "handle_msg E w msg = (Inr reply, w')"
    using h by blast
  ultimately show ?thesis by simp
qed

theorem handle_msg_catches_witness:
  "fst (handle_body (sample_env\<lparr>get_feeds := (\<lambda>d. Inl (Error ''database is locked''))\<rparr>)
          sample_world ''!list'') = Inl (Error ''database is locked'') \<and>
   fst (handle_msg (sample_env\<lparr>get_feeds := (\<lambda>d. Inl (Error ''database is locked''))\<rparr>)
          sample_world ''!list'') = Inr ''Something went wrong :(''"
proof -
  have h: "fst (handle_body (sample_env\<lparr>get_feeds := (\<lambda>d. Inl (Error ''database is locked''))\<rparr>)
          sample_world ''!list'') = Inl (Error ''database is locked'')"
    by (simp add: handle_body_def)
  with handle_msg_catches [of "sample_env\<lparr>get_feeds := (\<lambda>d. Inl (Error ''database is locked''))\<rparr>"
      sample_world "''!list''" "Error ''database is locked''"]
  show ?thesis by blast
qed

text \<open>
  Claim C5. When tinyurl raises instead of answering its error marker, the exception
  leaves the \<open>for\<close> loop: the cycle ends at that entry, which is neither inserted nor
  announced under its original link, and the entries after it are not looked at. Here
  the shortener raises on the first entry the cycle visits.
\<close>

theorem shortener_exception_aborts_cycle:
  "fetch_cycle (sample_env\<lparr>create_one := (\<lambda>u. Inl (Error ''IOError''))\<rparr>) sample_feed sample_world
     = (Some (Error ''IOError''),
        \<lparr>db = [], conn = ''rssbot'',
         calls = [Parse ''http://example.org/rss'', CreateOne ''http://example.org/1'']\<rparr>)"
  by (simp add: fetch_cycle_def process_entry_def record_call_def sample_feed_def
      sample_env_def sample_entries_def sample_world_def)

text \<open>
  The other half of the fallback holds: on the error marker the original link is used.
\<close>

lemma shortener_marker_falls_back:
  "title e = Some t \<Longrightarrow> link e = Some l \<Longrightarrow> create_one E l = Inr ''Error'' \<Longrightarrow>
   entry_row E fid e = Inr (fid, t, l, newsdate e)"
  by (simp add: entry_row_def)

text \<open>
  Claim C6. The date of an entry is its published timestamp if present, otherwise its
  updated timestamp if present, otherwise "no date". This date is the one handed to
  \<open>insert_news\<close>, and for a new item the messages sent to the channel are the pieces of
  the announcement text that ends with this date (up to the first piece on which the
  connection raises, all of them when it raises on none; together the pieces are the
  text without its newlines).
\<close>

theorem entry_date_recorded_and_announced:
  assumes "title e = Some t" and "link e = Some l" and "create_one E l = Inr s"
    and "insert_news E (db w) fid t (if s = ''Error'' then l else s) (spec_date e) = (res, d')"
  shows "snd (process_entry E (Feed fid fname furl ffreq) w e) =
     (if res = Inr True
      then post_news E
             (w\<lparr>db := d',
                calls := calls w @ [CreateOne l,
                  InsertNews fid t (if s = ''Error'' then l else s) (spec_date e)]\<rparr>)
             fname t (if s = ''Error'' then l else s) (spec_date e)
      else w\<lparr>db := d',
             calls := calls w @ [CreateOne l,
               InsertNews fid t (if s = ''Error'' then l else s) (spec_date e)]\<rparr>) \<and>
     calls (snd (process_entry E (Feed fid fname furl ffreq) w e)) =
       calls w @ [CreateOne l, InsertNews fid t (if s = ''Error'' then l else s) (spec_date e)] @
       (if res = Inr True
        then map (Privmsg (CHANNEL E))
               (attempted E (conn w) (CHANNEL E)
                  (msg_pieces (fname @ '': '' @ t @ '', '' @ (if s = ''Error'' then l else s)
                     @ '', '' @ spec_date e)))
        else []) \<and>
     ((\<forall>c t s. fst (privmsg E c t s) = None) \<longrightarrow>
        attempted E (conn w) (CHANNEL E)
          (msg_pieces (fname @ '': '' @ t @ '', '' @ (if s = ''Error'' then l else s)
             @ '', '' @ spec_date e))
        = msg_pieces (fname @ '': '' @ t @ '', '' @ (if s = ''Error'' then l else s)
             @ '', '' @ spec_date e)) \<and>
     concat (msg_pieces (fname @ '': '' @ t @ '', '' @ (if s = ''Error'' then l else s)
               @ '', '' @ spec_date e))
       = filter (\<lambda>x. x \<noteq> CHR 0x0A)
           (fname @ '': '' @ t @ '', '' @ (if s = ''Error'' then l else s) @ '', '' @ spec_date e)"
proof -
  have d: "newsdate e = spec_date e"
    by (auto simp: newsdate_def spec_date_def split: option.splits)
  have 1: "snd (process_entry E (Feed fid fname furl ffreq) w e) =
     (if res = Inr True
      then post_news E
             (w\<lparr>db := d',
                calls := calls w @ [CreateOne l,
                  InsertNews fid t (if s = ''Error'' then l else s) (spec_date e)]\<rparr>)
             fname t (if s = ''Error'' then l else s) (spec_date e)
      else w\<lparr>db := d',
             calls := calls w @ [CreateOne l,
               InsertNews fid t (if s = ''Error'' then l else s) (spec_date e)]\<rparr>)"
    using assms by (cases res) (auto simp: process_entry_def record_call_def d)
  have 2: "calls (snd (process_entry E (Feed fid fname furl ffreq) w e)) =
       calls w @ [CreateOne l, InsertNews fid t (if s = ''Error'' then l else s) (spec_date e)] @
       (if res = Inr True
        then map (Privmsg (CHANNEL E))
               (attempted E (conn w) (CHANNEL E)
                  (msg_pieces (fname @ '': '' @ t @ '', '' @ (if s = ''Error'' then l else s)
                     @ '', '' @ spec_date e)))
        else [])"
    using process_entry_exact [OF assms(1,2,3) assms(4)[folded d], of fname furl ffreq]
    by (simp only: d)
  show ?thesis
    using 1 2 attempted_accepts [of E]
      msg_pieces_concat [of "fname @ '': '' @ t @ '', '' @ (if s = ''Error'' then l else s)
          @ '', '' @ spec_date e"]
    by (intro conjI impI) simp_all
qed

theorem entry_date_recorded_and_announced_witness:
  "spec_date \<lparr>title = Some ''third'', link = Some ''http://example.org/3'',
              published = None, updated = Some ''Wed''\<rparr> = ''Wed'' \<and>
   (\<forall>c t s. fst (privmsg sample_env c t s) = None) \<and>
   calls (snd (process_entry sample_env (Feed 1 ''blog'' ''http://example.org/rss'' 5) sample_world
          \<lparr>title = Some ''third'', link = Some ''http://example.org/3'',
           published = None, updated = Some ''Wed''\<rparr>))
     = [CreateOne ''http://example.org/3'',
        InsertNews 1 ''third'' ''http://example.org/3'' ''Wed'',
        Privmsg ''#news'' ''blog: third, http://example.org/3, Wed'']"
proof -
  let ?e = "\<lparr>title = Some ''third'', link = Some ''http://example.org/3'',
             published = None, updated = Some ''Wed''\<rparr>"
  have sd: "spec_date ?e = ''Wed''" by (simp add: spec_date_def)
  have t: "title ?e = Some ''third''" and l: "link ?e = Some ''http://example.org/3''" by simp_all
  have s: "create_one sample_env ''http://example.org/3'' = Inr ''Error''"
    by (simp add: sample_env_def)
  have i: "insert_news sample_env (db sample_world) 1 ''third''
             (if ''Error'' = ''Error'' then ''http://example.org/3'' else ''Error'') (spec_date ?e)
           = (Inr True, [(1, ''third'', ''http://example.org/3'', ''Wed'')])"
    by (simp add: sample_env_def sample_world_def mem_insert_news_def sd)
  have acc: "\<forall>c t s. fst (privmsg sample_env c t s) = None"
    by (simp add: sample_env_def)
  have mp: "msg_pieces ''blog: third, http://example.org/3, Wed''
      = [''blog: third, http://example.org/3, Wed'']"
    by (simp add: msg_pieces_def Let_def)
  have c: "calls sample_world = []" "CHANNEL sample_env = ''#news''"
    by (simp_all add: sample_world_def sample_env_def)
  note h = entry_date_recorded_and_announced [OF t l s i, of "''blog''" "''http://example.org/rss''" 5]
  have att: "attempted sample_env (conn sample_world) ''#news''
               (msg_pieces ''blog: third, http://example.org/3, Wed'')
             = msg_pieces ''blog: third, http://example.org/3, Wed''"
    using h [THEN conjunct2, THEN conjunct2, THEN conjunct1] acc by (simp add: sd c)
  have "calls (snd (process_entry sample_env (Feed 1 ''blog'' ''http://example.org/rss'' 5)
                 sample_world ?e))
     = [CreateOne ''http://example.org/3'',
        InsertNews 1 ''third'' ''http://example.org/3'' ''Wed'',
        Privmsg ''#news'' ''blog: third, http://example.org/3, Wed'']"
    using h [THEN conjunct2, THEN conjunct1] by (simp add: sd c att) (simp add: mp)
  then show ?thesis using sd acc by blast
qed



text \<open>
  Claim C8, as the code has it. A public message is answered only when it is \<open>!help\<close>
  after lowercasing and trimming. The answer goes through \<open>send_msg\<close>: it is one private
  message per piece of the help text, every one addressed to the sender and none to any
  other target (a prefix of the pieces, and all of them when the connection accepts every
  piece). Any other public message leaves the world as it is.
\<close>

theorem pubmsg_only_help:
  assumes "arguments ev = a # rest"
  shows "(strip (lower a) = ''!help'' \<longrightarrow>
            (\<exists>qs. prefix qs (msg_pieces (help_msg E (conn w))) \<and>
                  calls (on_pubmsg E w ev) = calls w @ map (Privmsg (source_nick ev)) qs) \<and>
            ((\<forall>c t s. fst (privmsg E c t s) = None) \<longrightarrow>
               calls (on_pubmsg E w ev)
                 = calls w @ map (Privmsg (source_nick ev)) (msg_pieces (help_msg E (conn w))))) \<and>
         (strip (lower a) \<noteq> ''!help'' \<longrightarrow> on_pubmsg E w ev = w)"
  using assms send_msg_prefix [of "help_msg E (conn w)" E w "source_nick ev"]
    send_msg_accepts [of E w "source_nick ev" "help_msg E (conn w)"]
  by (simp add: on_pubmsg_def)

theorem pubmsg_only_help_witness:
  "arguments \<lparr>source_nick = ''alice'', arguments = ['' !HELP'']\<rparr> = [] @ ['' !HELP''] \<and>
   strip (lower '' !HELP'') = ''!help'' \<and>
   (\<forall>c t s. fst (privmsg sample_env c t s) = None) \<and>
   calls (on_pubmsg sample_env sample_world \<lparr>source_nick = ''alice'', arguments = ['' !HELP'']\<rparr>)
     = map (Privmsg ''alice'') (msg_pieces (help_msg sample_env ''rssbot'')) \<and>
   strip (lower ''hello'') \<noteq> ''!help'' \<and>
   on_pubmsg sample_env sample_world \<lparr>source_nick = ''alice'', arguments = [''hello'']\<rparr>
     = sample_world"
proof -
  have h: "strip (lower '' !HELP'') = ''!help''"
    by (simp add: strip_def lower_def lower_char_def is_space_def)
  have n: "strip (lower ''hello'') \<noteq> ''!help''"
    by (simp add: strip_def lower_def lower_char_def is_space_def)
  have a: "\<forall>c t s. fst (privmsg sample_env c t s) = None"
    by (simp add: sample_env_def)
  have c: "calls sample_world = []" "conn sample_world = ''rssbot''"
    by (simp_all add: sample_world_def)
  from pubmsg_only_help [of "\<lparr>source_nick = ''alice'', arguments = ['' !HELP'']\<rparr>" "'' !HELP''" "[]"
      sample_env sample_world]
    pubmsg_only_help [of "\<lparr>source_nick = ''alice'', arguments = [''hello'']\<rparr>" "''hello''" "[]"
      sample_env sample_world]
  show ?thesis using h n a c by simp
qed

text \<open>
  The claim as stated fails: the help text has seven non-empty lines, so a public
  \<open>!help\<close> is answered with seven private messages, not one.
\<close>

theorem pubmsg_help_counterexample:
  "calls (on_pubmsg sample_env sample_world \<lparr>source_nick = ''alice'', arguments = [''!help'']\<rparr>)
     = [Privmsg ''alice'' ''Help:'',
        Privmsg ''alice'' ''    Send all commands as a private message to rssbot'',
        Privmsg ''alice'' ''    - !help         Prints this help'',
        Privmsg ''alice'' ''    - !list         Prints all feeds'',
        Privmsg ''alice'' ''    - !stats        Prints some statistics'',
        Privmsg ''alice'' ''    - !last         Prints the last 25 entries'',
        Privmsg ''alice''
          ''    - !lastfeed <feedid> Prints the last 25 entries from a specific feed''] \<and>
   length (calls (on_pubmsg sample_env sample_world
             \<lparr>source_nick = ''alice'', arguments = [''!help'']\<rparr>)) \<noteq> 1"
  by (simp add: on_pubmsg_def sample_env_def sample_world_def record_call_def send_msg_def
      help_msg_def lower_def lower_char_def strip_def is_space_def Let_def)

text \<open>
  Claim C9. After two "nickname in use" events in a row the requested nickname is to be the
  original one with two suffix characters. The handler asks for the nickname the
  connection reports plus one underscore and keeps no nickname of its own, so on the
  sample connection the second event asks again for the nickname that was just refused.
\<close>

theorem nicknameinuse_repeats_refused_nickname:
  "calls (snd (on_nicknameinuse sample_env (snd (on_nicknameinuse sample_env sample_world))))
     = [Nick ''rssbot_'', Nick ''rssbot_''] \<and>
   calls (snd (on_nicknameinuse sample_env (snd (on_nicknameinuse sample_env sample_world))))
     \<noteq> [Nick ''rssbot_'', Nick (''rssbot'' @ ''__'')]"
  by (simp add: on_nicknameinuse_def sample_env_def sample_world_def record_call_def)

text \<open>
  What does hold: every event makes exactly one call of \<open>nick\<close>, with the nickname the
  connection reports at that moment and one underscore.
\<close>

lemma nicknameinuse_one_request:
  "calls (snd (on_nicknameinuse E w)) = calls w @ [Nick (get_nickname E (conn w) @ ''_'')]"
  by (cases "nick E (conn w) (get_nickname E (conn w) @ ''_'')")
     (simp add: on_nicknameinuse_def record_call_def)

text \<open>
  Claim C10. A private or public message event without arguments is dropped: both
  handlers return the world as it is, with no call on the FeedDB or the connection.
\<close>

theorem empty_arguments_ignored:
  assumes "arguments ev = []"
  shows "on_privmsg E w ev = (None, w) \<and> on_pubmsg E w ev = w"
  using assms by (simp add: on_privmsg_def on_pubmsg_def)

theorem empty_arguments_ignored_witness:
  "arguments \<lparr>source_nick = ''alice'', arguments = []\<rparr> = [] \<and>
   on_privmsg sample_env sample_world \<lparr>source_nick = ''alice'', arguments = []\<rparr>
     = (None, sample_world) \<and>
   on_pubmsg sample_env sample_world \<lparr>source_nick = ''alice'', arguments = []\<rparr> = sample_world"
  using empty_arguments_ignored [of "\<lparr>source_nick = ''alice'', arguments = []\<rparr>" sample_env sample_world]
  by simp

end
